theory Spec2Isabelle
  imports Main
begin

section \<open>Characters\<close>

text \<open>
  A C++ \<open>std::string\<close> is a sequence of bytes; it is modelled as a \<open>string\<close>, a list of
  8-bit \<open>char\<close>s. The characters the program names are abbreviated here.
\<close>

abbreviation dq :: char where "dq \<equiv> CHR 0x22"
abbreviation bs :: char where "bs \<equiv> CHR 0x5C"
abbreviation nl :: char where "nl \<equiv> CHR 0x0A"
abbreviation cr :: char where "cr \<equiv> CHR 0x0D"
abbreviation tab :: char where "tab \<equiv> CHR 0x09"
abbreviation sp :: char where "sp \<equiv> CHR 0x20"

section \<open>JsonWriter::escape\<close>

text \<open>
  The body of the range-for loop of \<open>escape\<close> (work_orders.cpp, lines 42 to 51): the
  \<open>switch\<close> appends to \<open>result\<close>, one case per special character, \<open>default\<close> last.
\<close>

definition escape_switch :: "string \<Rightarrow> char \<Rightarrow> string" where
  "escape_switch result c =
     (if c = dq then result @ [bs, dq]
      else if c = bs then result @ [bs, bs]
      else if c = nl then result @ [bs, CHR ''n'']
      else if c = cr then result @ [bs, CHR ''r'']
      else if c = tab then result @ [bs, CHR ''t'']
      else result @ [c])"

text \<open>The loop: \<open>result\<close> starts empty and every character of \<open>s\<close> is visited in order.\<close>

definition escape :: "string \<Rightarrow> string" where
  "escape s = foldl escape_switch [] s"

section \<open>JsonWriter::prettyPrint\<close>

text \<open>
  \<open>prettyPrint\<close> (work_orders.cpp, lines 67 to 109) scans \<open>json\<close> once, from left to
  right, with four local variables. They are the fields of the loop state.

  \<open>indent\<close> is a C++ \<open>int\<close>. It is modelled by an unbounded integer: the counter moves by
  one per character (lemma \<open>pp_loop_bounds\<close> below), so it stays within the range of an
  \<open>int\<close>, and \<open>indent * 2\<close> with it, for every input shorter than \<open>2 ^ 30\<close> characters.
\<close>

record pp_state =
  result :: string
  indent :: int
  inString :: bool
  prevChar :: char

text \<open>
  The only operation of the loop that can fail is \<open>std::string(indent * 2, ' ')\<close>: the
  constructor takes its count as a \<open>size_t\<close>, a negative \<open>int\<close> is converted to a value
  above \<open>max_size()\<close>, and the constructor throws \<open>std::length_error\<close>. Running out of
  memory is not modelled.
\<close>

datatype error = LengthError

definition indentation :: "int \<Rightarrow> error + string" where
  "indentation n = (if n < 0 then Inl LengthError else Inr (replicate (nat n) sp))"

text \<open>Lines 76 to 78: a quote whose predecessor is not a backslash flips \<open>inString\<close>.\<close>

definition toggle :: "pp_state \<Rightarrow> char \<Rightarrow> bool" where
  "toggle st c = (if c = dq \<and> prevChar st \<noteq> bs then \<not> inString st else inString st)"

text \<open>
  Lines 74 to 105, one pass of the loop body. The branches stand in the order of the
  source; \<open>indent++\<close> and \<open>indent--\<close> come before the indentation is built.
\<close>

definition pp_step :: "pp_state \<Rightarrow> char \<Rightarrow> error + pp_state" where
  "pp_step st c =
     (let inS = toggle st c in
      if \<not> inS then
        if c = CHR ''{'' \<or> c = CHR ''['' then
          (case indentation ((indent st + 1) * 2) of
             Inl e \<Rightarrow> Inl e
           | Inr pad \<Rightarrow> Inr \<lparr>result = result st @ [c] @ [nl] @ pad, indent = indent st + 1,
                            inString = inS, prevChar = c\<rparr>)
        else if c = CHR ''}'' \<or> c = CHR '']'' then
          (case indentation ((indent st - 1) * 2) of
             Inl e \<Rightarrow> Inl e
           | Inr pad \<Rightarrow> Inr \<lparr>result = result st @ [nl] @ pad @ [c], indent = indent st - 1,
                            inString = inS, prevChar = c\<rparr>)
        else if c = CHR '','' then
          (case indentation (indent st * 2) of
             Inl e \<Rightarrow> Inl e
           | Inr pad \<Rightarrow> Inr \<lparr>result = result st @ [c] @ [nl] @ pad, indent = indent st,
                            inString = inS, prevChar = c\<rparr>)
        else if c = CHR '':'' then
          Inr \<lparr>result = result st @ [c] @ [sp], indent = indent st, inString = inS, prevChar = c\<rparr>
        else if c \<noteq> sp \<and> c \<noteq> nl \<and> c \<noteq> cr \<and> c \<noteq> tab then
          Inr \<lparr>result = result st @ [c], indent = indent st, inString = inS, prevChar = c\<rparr>
        else
          Inr \<lparr>result = result st, indent = indent st, inString = inS, prevChar = c\<rparr>
      else
        Inr \<lparr>result = result st @ [c], indent = indent st, inString = inS, prevChar = c\<rparr>)"

text \<open>The \<open>for\<close> loop over the characters of \<open>json\<close>; an exception ends it.\<close>

fun pp_loop :: "pp_state \<Rightarrow> string \<Rightarrow> error + pp_state" where
  "pp_loop st [] = Inr st"
| "pp_loop st (c # cs) = (case pp_step st c of Inl e \<Rightarrow> Inl e | Inr st' \<Rightarrow> pp_loop st' cs)"

text \<open>Lines 68 to 71: the initial values of the local variables.\<close>

definition pp_init :: pp_state where
  "pp_init = \<lparr>result = [], indent = 0, inString = False, prevChar = CHR 0x00\<rparr>"

definition prettyPrint :: "string \<Rightarrow> error + string" where
  "prettyPrint json = (case pp_loop pp_init json of Inl e \<Rightarrow> Inl e | Inr st \<Rightarrow> Inr (result st))"

text \<open>The value of \<open>indent\<close> when the scan over \<open>json\<close> finishes.\<close>

definition indent_after :: "string \<Rightarrow> error + int" where
  "indent_after json = (case pp_loop pp_init json of Inl e \<Rightarrow> Inl e | Inr st \<Rightarrow> Inr (indent st))"

section \<open>outputSuccess: counting the marker\<close>

text \<open>
  \<open>std::string::find(str, pos)\<close>, as the C++ standard defines it: the lowest position
  \<open>p\<close> with \<open>pos \<le> p\<close> and \<open>p + str.size() \<le> size()\<close> at which \<open>str\<close> stands in the
  string, and \<open>npos\<close> (here \<open>None\<close>) when there is none.
\<close>

function find_from :: "string \<Rightarrow> string \<Rightarrow> nat \<Rightarrow> nat option" where
  "find_from text marker pos =
     (if length text < pos + length marker then None
      else if take (length marker) (drop pos text) = marker then Some pos
      else find_from text marker (pos + 1))"
  by pat_completeness auto
termination
  by (relation "measure (\<lambda>(text, marker, pos). Suc (length text) - pos)") auto

declare find_from.simps [simp del]

lemma find_from_Some_bounds:
  "find_from text marker pos = Some p \<Longrightarrow> pos \<le> p \<and> p \<le> length text"
proof (induction "text" marker pos rule: find_from.induct)
  case (1 t marker pos)
  have fits: "\<not> length t < pos + length marker"
    using "1.prems" by (subst (asm) find_from.simps) (simp split: if_splits)
  show ?case
  proof (cases "take (length marker) (drop pos t) = marker")
    case True
    with "1.prems" fits have "p = pos"
      by (subst (asm) find_from.simps) simp
    with fits show ?thesis by simp
  next
    case False
    with "1.prems" fits have rec: "find_from t marker (pos + 1) = Some p"
      by (subst (asm) find_from.simps) simp
    from "1.IH" [OF fits False rec] show ?thesis by simp
  qed
qed

text \<open>
  The \<open>while\<close> loop of \<open>outputSuccess\<close> (work_orders.cpp, lines 255 to 260): each match
  adds one to \<open>count\<close> and the search goes on one character after the start of the
  match. The marker is a parameter here; the program uses the one below.

  \<open>count\<close> is a C++ \<open>int\<close>, modelled by an unbounded integer: it is at most the length
  of the text plus one (lemma \<open>countOccurrences_le\<close> below).
\<close>

function count_loop :: "string \<Rightarrow> string \<Rightarrow> nat \<Rightarrow> int \<Rightarrow> int" where
  "count_loop text marker pos count =
     (case find_from text marker pos of
        None \<Rightarrow> count
      | Some p \<Rightarrow> count_loop text marker (p + 1) (count + 1))"
  by pat_completeness auto
termination
proof (relation "measure (\<lambda>(text, marker, pos, count). Suc (length text) - pos)")
  show "wf (measure (\<lambda>(text, marker, pos, count). Suc (length text) - pos))" by simp
next
  fix t marker :: string and pos p :: nat and count :: int
  assume "find_from t marker pos = Some p"
  then have "pos \<le> p \<and> p \<le> length t" by (rule find_from_Some_bounds)
  then show "((t, marker, p + 1, count + 1), (t, marker, pos, count))
      \<in> measure (\<lambda>(text, marker, pos, count). Suc (length text) - pos)"
    by auto
qed

declare count_loop.simps [simp del]

definition countOccurrences :: "string \<Rightarrow> string \<Rightarrow> int" where
  "countOccurrences text marker = count_loop text marker 0 0"

text \<open>The marker of the program, line 257: \<^verbatim>\<open>"Id":\<close> with its quotes.\<close>

definition id_marker :: string where
  "id_marker = [dq] @ ''Id'' @ [dq] @ '':''"

definition outputSuccess_count :: "string \<Rightarrow> int" where
  "outputSuccess_count apiResponse = countOccurrences apiResponse id_marker"

section \<open>Reference notions\<close>

subsection \<open>The escaping table\<close>

text \<open>
  The mapping table of the specification (section 4.1), one output fragment per input
  character, written independently of the loop above.
\<close>

definition escape_image :: "char \<Rightarrow> string" where
  "escape_image c =
     (if c = dq then [bs, dq]
      else if c = bs then [bs, bs]
      else if c = nl then [bs, CHR ''n'']
      else if c = cr then [bs, CHR ''r'']
      else if c = tab then [bs, CHR ''t'']
      else [c])"

subsection \<open>Brackets as the scanner sees them\<close>

definition is_open :: "char \<Rightarrow> bool" where
  "is_open c = (c = CHR ''{'' \<or> c = CHR ''['')"

definition is_close :: "char \<Rightarrow> bool" where
  "is_close c = (c = CHR ''}'' \<or> c = CHR '']'')"

definition is_space :: "char \<Rightarrow> bool" where
  "is_space c = (c = sp \<or> c = nl \<or> c = cr \<or> c = tab)"

text \<open>
  The characters of the input that \<open>prettyPrint\<close> treats as standing outside a string
  literal, by its own rule (a quote counts unless the character before it is a
  backslash). \<open>inS\<close> and \<open>prev\<close> are the string flag and the previous character at
  the start.
\<close>

fun outside_chars :: "bool \<Rightarrow> char \<Rightarrow> string \<Rightarrow> string" where
  "outside_chars inS prev [] = []"
| "outside_chars inS prev (c # cs) =
     (if (if c = dq \<and> prev \<noteq> bs then \<not> inS else inS)
      then outside_chars (if c = dq \<and> prev \<noteq> bs then \<not> inS else inS) c cs
      else c # outside_chars (if c = dq \<and> prev \<noteq> bs then \<not> inS else inS) c cs)"


text \<open>
  Brackets and braces of \<open>cs\<close> are balanced from depth \<open>d\<close>: every closing one has an
  opening one before it, and the depth is zero at the end.
\<close>

fun balanced_from :: "nat \<Rightarrow> string \<Rightarrow> bool" where
  "balanced_from d [] = (d = 0)"
| "balanced_from d (c # cs) =
     (if is_open c then balanced_from (d + 1) cs
      else if is_close c then 0 < d \<and> balanced_from (d - 1) cs
      else balanced_from d cs)"

subsection \<open>String literals as JSON defines them\<close>

text \<open>
  In JSON text (RFC 8259, section 7) a string literal runs from a quote to the next
  quote that is not escaped, and inside a literal a backslash escapes the character that
  follows it, whatever it is; so a quote after two backslashes closes the literal.
  \<open>json_outside\<close> marks, for each character of a text, whether it stands outside every
  string literal; the quotes of a literal belong to it.
\<close>

fun json_outside :: "bool \<Rightarrow> bool \<Rightarrow> string \<Rightarrow> bool list" where
  "json_outside inStr esc [] = []"
| "json_outside inStr esc (c # cs) =
     (if inStr then
        (if esc then False # json_outside True False cs
         else if c = bs then False # json_outside True True cs
         else if c = dq then False # json_outside False False cs
         else False # json_outside True False cs)
      else if c = dq then False # json_outside True False cs
      else True # json_outside False False cs)"

text \<open>The characters of a text outside its string literals.\<close>

definition json_structure :: "string \<Rightarrow> string" where
  "json_structure s = map fst (filter snd (zip s (json_outside False False s)))"

text \<open>
  The normalisation of the specification (section 8): all whitespace outside string
  literals is removed.
\<close>

definition collapse_ws :: "string \<Rightarrow> string" where
  "collapse_ws s =
     map fst (filter (\<lambda>(c, out). \<not> (out \<and> is_space c)) (zip s (json_outside False False s)))"


subsection \<open>Occurrences of a marker\<close>

text \<open>The marker stands in the text at position \<open>p\<close>.\<close>

definition occurs_at :: "string \<Rightarrow> string \<Rightarrow> nat \<Rightarrow> bool" where
  "occurs_at text marker p =
     (p + length marker \<le> length text \<and> take (length marker) (drop p text) = marker)"

subsection \<open>Decoding a JSON string literal\<close>

text \<open>
  A decoder for one JSON string literal, after RFC 8259, section 7, as a parser reads
  it: character by character, from the opening quote to the closing one, with nothing
  after it. Between the quotes a character below \<open>0x20\<close> and a quote must be escaped; a
  backslash starts an escape, one of the eight two-character escapes or \<^verbatim>\<open>\u\<close> with four
  hexadecimal digits. JSON text is UTF-8 (RFC 8259, section 8.1), and the decoded value
  is a byte string as the program has it: a \<^verbatim>\<open>\u\<close> escape yields the UTF-8 bytes of
  its code point (two escapes for a surrogate pair; a surrogate on its own is refused),
  and a byte from \<open>0x80\<close> on is accepted only as part of a well-formed UTF-8 sequence,
  which is copied.
\<close>

text \<open>
  Well-formed UTF-8 (RFC 3629, section 4): one byte up to \<open>0x7F\<close>; a lead byte
  \<open>0xC2\<close> to \<open>0xDF\<close> with one continuation byte; \<open>0xE0\<close> to \<open>0xEF\<close> with two;
  \<open>0xF0\<close> to \<open>0xF4\<close> with three. A continuation byte lies between \<open>0x80\<close> and
  \<open>0xBF\<close>, and the first one is confined further after four lead bytes, which keeps out
  overlong forms, surrogates and code points above \<open>0x10FFFF\<close>.
\<close>

definition in_range :: "char \<Rightarrow> nat \<Rightarrow> nat \<Rightarrow> bool" where
  "in_range c lo hi = (lo \<le> (of_char c :: nat) \<and> (of_char c :: nat) \<le> hi)"

definition second_lo :: "char \<Rightarrow> nat" where
  "second_lo a = (if a = CHR 0xE0 then 0xA0 else if a = CHR 0xF0 then 0x90 else 0x80)"

definition second_hi :: "char \<Rightarrow> nat" where
  "second_hi a = (if a = CHR 0xED then 0x9F else if a = CHR 0xF4 then 0x8F else 0xBF)"

fun utf8_valid :: "string \<Rightarrow> bool" where
  "utf8_valid [] = True"
| "utf8_valid (a # r) =
     (if in_range a 0x00 0x7F then utf8_valid r
      else if in_range a 0xC2 0xDF then
        (case r of
           b # r2 \<Rightarrow> in_range b 0x80 0xBF \<and> utf8_valid r2
         | _ \<Rightarrow> False)
      else if in_range a 0xE0 0xEF then
        (case r of
           b # c # r3 \<Rightarrow>
             in_range b (second_lo a) (second_hi a) \<and> in_range c 0x80 0xBF \<and> utf8_valid r3
         | _ \<Rightarrow> False)
      else if in_range a 0xF0 0xF4 then
        (case r of
           b # c # d # r4 \<Rightarrow>
             in_range b (second_lo a) (second_hi a) \<and> in_range c 0x80 0xBF
             \<and> in_range d 0x80 0xBF \<and> utf8_valid r4
         | _ \<Rightarrow> False)
      else False)"

definition simple_escape :: "char \<Rightarrow> char option" where
  "simple_escape e =
     (if e = dq then Some dq
      else if e = bs then Some bs
      else if e = CHR ''/'' then Some (CHR ''/'')
      else if e = CHR ''b'' then Some (CHR 0x08)
      else if e = CHR ''f'' then Some (CHR 0x0C)
      else if e = CHR ''n'' then Some nl
      else if e = CHR ''r'' then Some cr
      else if e = CHR ''t'' then Some tab
      else None)"

definition hex_digit :: "char \<Rightarrow> nat option" where
  "hex_digit c =
     (let n = (of_char c :: nat) in
      if 48 \<le> n \<and> n \<le> 57 then Some (n - 48)
      else if 65 \<le> n \<and> n \<le> 70 then Some (n - 55)
      else if 97 \<le> n \<and> n \<le> 102 then Some (n - 87)
      else None)"

definition utf8 :: "nat \<Rightarrow> string" where
  "utf8 n =
     (if n < 0x80 then [char_of n]
      else if n < 0x800 then [char_of (0xC0 + n div 0x40), char_of (0x80 + n mod 0x40)]
      else if n < 0x10000 then
        [char_of (0xE0 + n div 0x1000), char_of (0x80 + n div 0x40 mod 0x40),
         char_of (0x80 + n mod 0x40)]
      else
        [char_of (0xF0 + n div 0x40000), char_of (0x80 + n div 0x1000 mod 0x40),
         char_of (0x80 + n div 0x40 mod 0x40), char_of (0x80 + n mod 0x40)])"

text \<open>
  The states of the decoder: before the opening quote; between the quotes; after a
  backslash; inside \<^verbatim>\<open>\uXXXX\<close> (digits still to read, value so far, and the high
  surrogate that came before, if any); after a high surrogate, where \<^verbatim>\<open>\u\<close> must
  follow (two states); inside a multi-byte UTF-8 sequence (continuation bytes still to
  read, and the bounds of the next one); after the closing quote.
\<close>

datatype lit_state =
  Start | Plain | Esc | Hex nat nat "nat option" | LowEsc nat | LowU nat
  | Utf nat nat nat | Closed

definition hex_done :: "nat \<Rightarrow> nat option \<Rightarrow> string \<Rightarrow> (lit_state \<times> string) option" where
  "hex_done v hi out =
     (case hi of
        None \<Rightarrow>
          if 0xD800 \<le> v \<and> v < 0xDC00 then Some (LowEsc v, out)
          else if 0xDC00 \<le> v \<and> v < 0xE000 then None
          else Some (Plain, out @ utf8 v)
      | Some h \<Rightarrow>
          if 0xDC00 \<le> v \<and> v < 0xE000
          then Some (Plain, out @ utf8 (0x10000 + (h - 0xD800) * 0x400 + (v - 0xDC00)))
          else None)"

fun lit_step :: "lit_state \<Rightarrow> string \<Rightarrow> char \<Rightarrow> (lit_state \<times> string) option" where
  "lit_step Start out c = (if c = dq then Some (Plain, out) else None)"
| "lit_step Plain out c =
     (if c = dq then Some (Closed, out)
      else if c = bs then Some (Esc, out)
      else if (of_char c :: nat) < 0x20 then None
      else if (of_char c :: nat) < 0x80 then Some (Plain, out @ [c])
      else if in_range c 0xC2 0xDF then Some (Utf 1 0x80 0xBF, out @ [c])
      else if in_range c 0xE0 0xEF then Some (Utf 2 (second_lo c) (second_hi c), out @ [c])
      else if in_range c 0xF0 0xF4 then Some (Utf 3 (second_lo c) (second_hi c), out @ [c])
      else None)"
| "lit_step Esc out c =
     (if c = CHR ''u'' then Some (Hex 4 0 None, out)
      else (case simple_escape c of None \<Rightarrow> None | Some d \<Rightarrow> Some (Plain, out @ [d])))"
| "lit_step (Hex k v hi) out c =
     (case hex_digit c of
        None \<Rightarrow> None
      | Some h \<Rightarrow> if 1 < k then Some (Hex (k - 1) (v * 16 + h) hi, out)
                  else hex_done (v * 16 + h) hi out)"
| "lit_step (LowEsc hi) out c = (if c = bs then Some (LowU hi, out) else None)"
| "lit_step (LowU hi) out c = (if c = CHR ''u'' then Some (Hex 4 0 (Some hi), out) else None)"
| "lit_step (Utf k lo hi) out c =
     (if in_range c lo hi
      then Some (if 1 < k then Utf (k - 1) 0x80 0xBF else Plain, out @ [c])
      else None)"
| "lit_step Closed out c = None"

fun lit_run :: "lit_state \<Rightarrow> string \<Rightarrow> string \<Rightarrow> (lit_state \<times> string) option" where
  "lit_run st out [] = Some (st, out)"
| "lit_run st out (c # cs) =
     (case lit_step st out c of None \<Rightarrow> None | Some (st', out') \<Rightarrow> lit_run st' out' cs)"

definition json_string_value :: "string \<Rightarrow> string option" where
  "json_string_value lit =
     (case lit_run Start [] lit of Some (Closed, out) \<Rightarrow> Some out | _ \<Rightarrow> None)"

text \<open>
  The characters the escaping table is meant for (specification, section 8): the five
  it escapes and every character outside the control range below the space.
\<close>

definition covered :: "char \<Rightarrow> bool" where
  "covered c = (c = dq \<or> c = bs \<or> c = nl \<or> c = cr \<or> c = tab \<or> 0x20 \<le> (of_char c :: nat))"

subsection \<open>Sample documents\<close>

text \<open>
  Three JSON documents with a string value that ends in an escaped backslash:
  \<^verbatim>\<open>["\\","a b"]\<close>, \<^verbatim>\<open>{"a":"\\"}\<close> and \<^verbatim>\<open>["\\","\\ "]\<close>.
\<close>

definition doc_two_strings :: string where
  "doc_two_strings = ''['' @ [dq, bs, bs, dq] @ '','' @ [dq] @ ''a b'' @ [dq] @ '']''"

definition doc_object :: string where
  "doc_object = ''{'' @ [dq] @ ''a'' @ [dq] @ '':'' @ [dq, bs, bs, dq] @ ''}''"

definition doc_backslash_space :: string where
  "doc_backslash_space = ''['' @ [dq, bs, bs, dq] @ '','' @ [dq, bs, bs, sp, dq] @ '']''"

section \<open>Properties of escape\<close>

lemma escape_switch_image: "escape_switch acc c = acc @ escape_image c"
  by (simp add: escape_switch_def escape_image_def)

lemma escape_loop_acc: "foldl escape_switch acc s = acc @ concat (map escape_image s)"
  by (induction s arbitrary: acc) (simp_all add: escape_switch_image)

lemma escape_image_not_Nil: "escape_image c \<noteq> []"
  by (simp add: escape_image_def)

lemma escape_image_prefix_free:
  "escape_image c @ u = escape_image d @ v \<Longrightarrow> c = d \<and> u = v"
  by (simp add: escape_image_def split: if_splits)

lemma concat_escape_image_inj:
  "concat (map escape_image s) = concat (map escape_image t) \<Longrightarrow> s = t"
proof (induction s arbitrary: t)
  case Nil
  show ?case
  proof (cases t)
    case Nil
    then show ?thesis by simp
  next
    case (Cons d ds)
    with Nil.prems show ?thesis by (simp add: escape_image_not_Nil)
  qed
next
  case (Cons c cs)
  show ?case
  proof (cases t)
    case Nil
    with Cons.prems show ?thesis by (simp add: escape_image_not_Nil)
  next
    case (Cons d ds)
    with Cons.prems
    have "escape_image c @ concat (map escape_image cs)
        = escape_image d @ concat (map escape_image ds)"
      by simp
    then have "c = d" and "concat (map escape_image cs) = concat (map escape_image ds)"
      using escape_image_prefix_free by blast+
    with Cons.IH \<open>t = d # ds\<close> show ?thesis by simp
  qed
qed

text \<open>
  Claim C3. For every input string \<open>s\<close>, \<open>escape s\<close> is the concatenation, in order, of
  the images of the characters of \<open>s\<close> under the table of the specification: each
  character is mapped on its own, whatever stands before or after it.
\<close>

theorem escape_is_concat_of_images: "escape s = concat (map escape_image s)"
  by (simp add: escape_def escape_loop_acc)

text \<open>
  Claim C9. \<open>escape\<close> distributes over concatenation, and the empty string is escaped
  to the empty string: a string may be escaped in chunks.
\<close>

theorem escape_append: "escape (s @ t) = escape s @ escape t \<and> escape [] = []"
  by (simp add: escape_def escape_loop_acc)

text \<open>
  Claim C10. \<open>escape\<close> is injective: two inputs with the same escaped fragment are the
  same input.
\<close>

theorem escape_injective: "escape s = escape t \<Longrightarrow> s = t"
  by (simp add: escape_def escape_loop_acc concat_escape_image_inj)

theorem escape_injective_witness:
  "escape [CHR ''a'', dq, nl] = escape [CHR ''a'', dq, nl]
   \<and> [CHR ''a'', dq, nl] = [CHR ''a'', dq, nl]"
  using escape_injective [of "[CHR ''a'', dq, nl]" "[CHR ''a'', dq, nl]"] by simp

subsection \<open>Round trip through a JSON string literal\<close>

lemma lit_run_append:
  "lit_run st out (xs @ ys)
     = (case lit_run st out xs of None \<Rightarrow> None | Some (st', out') \<Rightarrow> lit_run st' out' ys)"
  by (induction xs arbitrary: st out) (auto split: option.splits)

lemma lit_run_image:
  assumes "covered c" and "in_range c 0x00 0x7F"
  shows "lit_run Plain out (escape_image c) = Some (Plain, out @ [c])"
proof -
  have small: "(of_char c :: nat) < 0x80" using assms(2) by (simp add: in_range_def)
  consider "c = dq" | "c = bs" | "c = nl" | "c = cr" | "c = tab"
    | "c \<noteq> dq" "c \<noteq> bs" "c \<noteq> nl" "c \<noteq> cr" "c \<noteq> tab" "0x20 \<le> (of_char c :: nat)"
    using assms(1) unfolding covered_def by blast
  then show ?thesis
  proof cases
    case 6
    with small show ?thesis by (simp add: escape_image_def)
  qed (simp_all add: escape_image_def simple_escape_def)
qed

lemma escape_image_high: "0x80 \<le> (of_char c :: nat) \<Longrightarrow> escape_image c = [c]"
  by (auto simp: escape_image_def)

lemma high_byte:
  "in_range c lo hi \<Longrightarrow> 0x80 \<le> lo \<Longrightarrow>
   escape_image c = [c] \<and> c \<noteq> dq \<and> c \<noteq> bs \<and> \<not> (of_char c :: nat) < 0x80"
  by (auto simp: in_range_def escape_image_high)

lemma second_lo_high: "0x80 \<le> second_lo a"
  by (simp add: second_lo_def)

lemma lit_step_lead2:
  "\<not> in_range a 0x00 0x7F \<Longrightarrow> in_range a 0xC2 0xDF \<Longrightarrow>
   lit_step Plain out a = Some (Utf 1 0x80 0xBF, out @ [a])"
  by (auto simp: in_range_def)

lemma lit_step_lead3:
  "\<not> in_range a 0x00 0x7F \<Longrightarrow> \<not> in_range a 0xC2 0xDF \<Longrightarrow> in_range a 0xE0 0xEF \<Longrightarrow>
   lit_step Plain out a = Some (Utf 2 (second_lo a) (second_hi a), out @ [a])"
  by (auto simp: in_range_def)

lemma lit_step_lead4:
  "\<not> in_range a 0x00 0x7F \<Longrightarrow> \<not> in_range a 0xC2 0xDF \<Longrightarrow> \<not> in_range a 0xE0 0xEF \<Longrightarrow>
   in_range a 0xF0 0xF4 \<Longrightarrow>
   lit_step Plain out a = Some (Utf 3 (second_lo a) (second_hi a), out @ [a])"
  by (auto simp: in_range_def)

lemma lit_step_cont:
  "in_range c lo hi \<Longrightarrow>
   lit_step (Utf k lo hi) out c
     = Some (if 1 < k then Utf (k - 1) 0x80 0xBF else Plain, out @ [c])"
  by simp

lemma lit_run_images:
  "utf8_valid s \<Longrightarrow> \<forall>c\<in>set s. covered c \<Longrightarrow>
   lit_run Plain out (concat (map escape_image s)) = Some (Plain, out @ s)"
proof (induction s arbitrary: out rule: utf8_valid.induct)
  case 1
  show ?case by simp
next
  case (2 a r)
  consider (one) "in_range a 0x00 0x7F"
    | (two) "\<not> in_range a 0x00 0x7F" "in_range a 0xC2 0xDF"
    | (three) "\<not> in_range a 0x00 0x7F" "\<not> in_range a 0xC2 0xDF" "in_range a 0xE0 0xEF"
    | (four) "\<not> in_range a 0x00 0x7F" "\<not> in_range a 0xC2 0xDF" "\<not> in_range a 0xE0 0xEF"
        "in_range a 0xF0 0xF4"
    | (none) "\<not> in_range a 0x00 0x7F" "\<not> in_range a 0xC2 0xDF" "\<not> in_range a 0xE0 0xEF"
        "\<not> in_range a 0xF0 0xF4"
    by blast
  then show ?case
  proof cases
    case one
    from "2.prems" one have v: "utf8_valid r" and c: "covered a" and cs: "\<forall>c\<in>set r. covered c"
      by simp_all
    from "2.IH"(1) [OF one v cs] lit_run_image [OF c one] show ?thesis
      by (simp add: lit_run_append)
  next
    case two
    from "2.prems"(1) two obtain b r2 where r: "r = b # r2"
      and b: "in_range b 0x80 0xBF" and v: "utf8_valid r2"
      by (auto split: list.splits)
    from "2.prems"(2) r have cs: "\<forall>c\<in>set r2. covered c" by simp
    have ha: "escape_image a = [a]"
      using two(2) high_byte [of a "0xC2" "0xDF"] by simp
    have hb: "escape_image b = [b]"
      using b high_byte [of b "0x80" "0xBF"] by simp
    from "2.IH"(2) [OF two r v cs, of "out @ [a, b]"] show ?thesis
      by (simp add: r ha hb lit_step_lead2 [OF two] lit_step_cont [OF b] del: lit_step.simps)
  next
    case three
    from "2.prems"(1) three obtain b c r3 where r: "r = b # c # r3"
      and b: "in_range b (second_lo a) (second_hi a)"
      and c: "in_range c 0x80 0xBF" and v: "utf8_valid r3"
      by (auto split: list.splits)
    from "2.prems"(2) r have cs: "\<forall>c\<in>set r3. covered c" by simp
    have ha: "escape_image a = [a]"
      using three(3) high_byte [of a "0xE0" "0xEF"] by simp
    have hb: "escape_image b = [b]"
      using b high_byte [of b "second_lo a" "second_hi a"] second_lo_high by simp
    have hc: "escape_image c = [c]"
      using c high_byte [of c "0x80" "0xBF"] by simp
    have "lit_run Plain (out @ [a, b, c]) (concat (map escape_image r3))
        = Some (Plain, (out @ [a, b, c]) @ r3)"
      using "2.IH"(3) three r v cs by blast
    then show ?thesis
      by (simp add: r ha hb hc lit_step_lead3 [OF three] lit_step_cont [OF b] lit_step_cont [OF c]
          del: lit_step.simps)
  next
    case four
    from "2.prems"(1) four obtain b c d r4 where r: "r = b # c # d # r4"
      and b: "in_range b (second_lo a) (second_hi a)"
      and c: "in_range c 0x80 0xBF" and d: "in_range d 0x80 0xBF" and v: "utf8_valid r4"
      by (auto split: list.splits)
    from "2.prems"(2) r have cs: "\<forall>c\<in>set r4. covered c" by simp
    have ha: "escape_image a = [a]"
      using four(4) high_byte [of a "0xF0" "0xF4"] by simp
    have hb: "escape_image b = [b]"
      using b high_byte [of b "second_lo a" "second_hi a"] second_lo_high by simp
    have hc: "escape_image c = [c]"
      using c high_byte [of c "0x80" "0xBF"] by simp
    have hd: "escape_image d = [d]"
      using d high_byte [of d "0x80" "0xBF"] by simp
    have "lit_run Plain (out @ [a, b, c, d]) (concat (map escape_image r4))
        = Some (Plain, (out @ [a, b, c, d]) @ r4)"
      using "2.IH"(4) four r v cs by blast
    then show ?thesis
      by (simp add: r ha hb hc hd lit_step_lead4 [OF four] lit_step_cont [OF b]
          lit_step_cont [OF c] lit_step_cont [OF d] del: lit_step.simps)
  next
    case none
    with "2.prems"(1) show ?thesis by simp
  qed
qed

text \<open>
  Claim C7, as the code has it. For every string \<open>s\<close> that is well-formed UTF-8 and made
  of quotes, backslashes, newlines, carriage returns, tabs and characters outside the
  control range, \<open>escape s\<close> between double quotes is a JSON string literal, and decoding
  it gives \<open>s\<close> back.
\<close>

theorem escape_quoted_decodes_to_input:
  assumes "utf8_valid s" and "\<forall>c\<in>set s. covered c"
  shows "json_string_value ([dq] @ escape s @ [dq]) = Some s"
proof -
  have "lit_run Start [] ([dq] @ escape s @ [dq])
      = lit_run Plain [] (concat (map escape_image s) @ [dq])"
    by (simp add: escape_def escape_loop_acc)
  also have "\<dots> = lit_run Plain s [dq]"
    by (simp add: lit_run_append lit_run_images [OF assms])
  also have "\<dots> = Some (Closed, s)" by simp
  finally show ?thesis by (simp add: json_string_value_def)
qed

theorem escape_quoted_decodes_to_input_witness:
  "utf8_valid (''caf'' @ [CHR 0xC3, CHR 0xA9, sp, dq] @ ''hi'' @ [dq, bs, nl])
   \<and> list_all covered (''caf'' @ [CHR 0xC3, CHR 0xA9, sp, dq] @ ''hi'' @ [dq, bs, nl])
   \<and> json_string_value
        ([dq] @ escape (''caf'' @ [CHR 0xC3, CHR 0xA9, sp, dq] @ ''hi'' @ [dq, bs, nl]) @ [dq])
     = Some (''caf'' @ [CHR 0xC3, CHR 0xA9, sp, dq] @ ''hi'' @ [dq, bs, nl])"
proof -
  have v: "utf8_valid (''caf'' @ [CHR 0xC3, CHR 0xA9, sp, dq] @ ''hi'' @ [dq, bs, nl])"
    by code_simp
  have h: "\<forall>c\<in>set (''caf'' @ [CHR 0xC3, CHR 0xA9, sp, dq] @ ''hi'' @ [dq, bs, nl]). covered c"
    by (simp add: covered_def)
  from v h escape_quoted_decodes_to_input [OF v h] show ?thesis
    by (simp only: list_all_iff simp_thms)
qed

text \<open>
  Claim C7, as stated, fails on the one-byte string \<open>0xFF\<close>: the byte is outside the
  control range and \<open>escape\<close> copies it, but no UTF-8 sequence holds it, and the literal
  is refused.
\<close>

theorem escape_invalid_utf8_rejected:
  "list_all covered [CHR 0xFF]
   \<and> json_string_value ([dq] @ escape [CHR 0xFF] @ [dq]) = None"
  by code_simp

text \<open>
  The hypothesis on the characters of \<open>s\<close> is needed as well: the bell character is
  copied by \<open>escape\<close> and a literal that holds it is refused.
\<close>

lemma escape_bell_rejected: "json_string_value ([dq] @ escape [CHR 0x07] @ [dq]) = None"
  by code_simp

section \<open>Properties of prettyPrint\<close>

subsection \<open>One pass of the loop body, case by case\<close>

lemma pp_step_inside:
  "toggle st c \<Longrightarrow>
   pp_step st c = Inr \<lparr>result = result st @ [c], indent = indent st, inString = True, prevChar = c\<rparr>"
  by (simp add: pp_step_def)

lemma pp_step_open:
  "\<not> toggle st c \<Longrightarrow> is_open c \<Longrightarrow> 0 \<le> indent st \<Longrightarrow>
   pp_step st c = Inr \<lparr>result = result st @ [c] @ [nl] @ replicate (nat ((indent st + 1) * 2)) sp,
                        indent = indent st + 1, inString = False, prevChar = c\<rparr>"
  by (simp add: pp_step_def is_open_def indentation_def)

lemma pp_step_close_fail:
  "\<not> toggle st c \<Longrightarrow> is_close c \<Longrightarrow> indent st \<le> 0 \<Longrightarrow> pp_step st c = Inl LengthError"
  by (auto simp add: pp_step_def is_close_def indentation_def)

lemma pp_step_close:
  "\<not> toggle st c \<Longrightarrow> is_close c \<Longrightarrow> 0 < indent st \<Longrightarrow>
   pp_step st c = Inr \<lparr>result = result st @ [nl] @ replicate (nat ((indent st - 1) * 2)) sp @ [c],
                        indent = indent st - 1, inString = False, prevChar = c\<rparr>"
  by (auto simp add: pp_step_def is_close_def indentation_def)

lemma pp_step_comma:
  "\<not> toggle st c \<Longrightarrow> c = CHR '','' \<Longrightarrow> 0 \<le> indent st \<Longrightarrow>
   pp_step st c = Inr \<lparr>result = result st @ [c] @ [nl] @ replicate (nat (indent st * 2)) sp,
                        indent = indent st, inString = False, prevChar = c\<rparr>"
  by (simp add: pp_step_def indentation_def)

lemma pp_step_colon:
  "\<not> toggle st c \<Longrightarrow> c = CHR '':'' \<Longrightarrow>
   pp_step st c = Inr \<lparr>result = result st @ [c] @ [sp],
                        indent = indent st, inString = False, prevChar = c\<rparr>"
  by (simp add: pp_step_def)

lemma pp_step_space:
  "\<not> toggle st c \<Longrightarrow> c = sp \<or> c = nl \<or> c = cr \<or> c = tab \<Longrightarrow>
   pp_step st c = Inr \<lparr>result = result st,
                        indent = indent st, inString = False, prevChar = c\<rparr>"
  by (elim disjE) (simp_all add: pp_step_def)

lemma pp_step_copy:
  "\<not> toggle st c \<Longrightarrow> \<not> is_open c \<Longrightarrow> \<not> is_close c \<Longrightarrow> c \<noteq> CHR '','' \<Longrightarrow> c \<noteq> CHR '':'' \<Longrightarrow>
   \<not> (c = sp \<or> c = nl \<or> c = cr \<or> c = tab) \<Longrightarrow>
   pp_step st c = Inr \<lparr>result = result st @ [c],
                        indent = indent st, inString = False, prevChar = c\<rparr>"
  by (simp add: pp_step_def is_open_def is_close_def)

lemma pp_step_other:
  assumes "\<not> toggle st c" "\<not> is_open c" "\<not> is_close c" "0 \<le> indent st"
  shows "\<exists>r. pp_step st c = Inr \<lparr>result = r, indent = indent st, inString = False, prevChar = c\<rparr>
       \<and> length r \<le> length (result st) + 2 + 2 * nat (indent st)"
proof -
  consider (comma) "c = CHR '',''" | (colon) "c = CHR '':''"
    | (space) "c = sp \<or> c = nl \<or> c = cr \<or> c = tab"
    | (copy) "c \<noteq> CHR '',''" "c \<noteq> CHR '':''" "\<not> (c = sp \<or> c = nl \<or> c = cr \<or> c = tab)"
    by blast
  then show ?thesis
  proof cases
    case comma
    have "nat (indent st * 2) = 2 * nat (indent st)" using assms(4) by simp
    with pp_step_comma [OF assms(1) comma assms(4)] show ?thesis by simp
  next
    case colon
    with pp_step_colon [OF assms(1) colon] show ?thesis by simp
  next
    case space
    with pp_step_space [OF assms(1) space] show ?thesis by simp
  next
    case copy
    with pp_step_copy [OF assms(1,2,3) copy] show ?thesis by simp
  qed
qed
lemma open_not_close: "is_open c \<Longrightarrow> \<not> is_close c"
  by (auto simp: is_open_def is_close_def)


subsection \<open>The scanner and JSON on texts without a quote after a backslash\<close>



subsection \<open>Bounds on the counter and on the output\<close>

lemma pp_step_bounds:
  assumes "0 \<le> indent st" and "pp_step st c = Inr st'"
  shows "0 \<le> indent st' \<and> indent st' \<le> indent st + 1
       \<and> int (length (result st')) \<le> int (length (result st)) + 2 * indent st + 4"
proof (cases "toggle st c")
  case True
  from assms pp_step_inside [OF True] show ?thesis by auto
next
  case False
  consider (op) "is_open c" | (cl) "is_close c" "\<not> is_open c" | (ot) "\<not> is_open c" "\<not> is_close c"
    by blast
  then show ?thesis
  proof cases
    case op
    from assms pp_step_open [OF False op assms(1)] show ?thesis by auto
  next
    case cl
    show ?thesis
    proof (cases "0 < indent st")
      case True
      from assms True pp_step_close [OF False cl(1) True] show ?thesis by auto
    next
      case nonpos: False
      with assms pp_step_close_fail [OF False cl(1)] show ?thesis by simp
    qed
  next
    case ot
    from pp_step_other [OF False ot assms(1)] assms show ?thesis by auto
  qed
qed

lemma pp_loop_bounds:
  "0 \<le> indent st \<Longrightarrow> pp_loop st s = Inr st' \<Longrightarrow>
   0 \<le> indent st' \<and> indent st' \<le> indent st + int (length s)
   \<and> int (length (result st'))
       \<le> int (length (result st)) + 2 * indent st * int (length s)
          + int (length s) * int (length s) + 3 * int (length s)"
proof (induction s arbitrary: st)
  case Nil
  then show ?case by simp
next
  case (Cons c cs)
  from Cons.prems(2) obtain st1 where s1: "pp_step st c = Inr st1" and l1: "pp_loop st1 cs = Inr st'"
    by (auto split: sum.splits)
  from pp_step_bounds [OF Cons.prems(1) s1]
  have b1: "0 \<le> indent st1" "indent st1 \<le> indent st + 1"
    "int (length (result st1)) \<le> int (length (result st)) + 2 * indent st + 4"
    by simp_all
  define m where "m = int (length cs)"
  have m0: "0 \<le> m" by (simp add: m_def)
  from Cons.IH [OF b1(1) l1]
  have ih: "0 \<le> indent st'" "indent st' \<le> indent st1 + m"
    "int (length (result st')) \<le> int (length (result st1)) + 2 * indent st1 * m + m * m + 3 * m"
    by (simp_all add: m_def)
  have "indent st1 * m \<le> (indent st + 1) * m"
    using b1(2) m0 by (rule mult_right_mono)
  then have "2 * indent st1 * m \<le> 2 * indent st * m + 2 * m"
    by (simp add: algebra_simps)
  with ih(3) b1(3)
  have "int (length (result st'))
      \<le> int (length (result st)) + 2 * indent st * (m + 1) + (m + 1) * (m + 1) + 3 * (m + 1)"
    by (simp add: algebra_simps)
  moreover have "int (length (c # cs)) = m + 1" by (simp add: m_def)
  ultimately show ?case using ih(1,2) b1(2) by (simp only:) simp
qed

lemma pp_loop_replicate_open:
  "\<not> inString st \<Longrightarrow> 0 \<le> indent st \<Longrightarrow>
   \<exists>st'. pp_loop st (replicate n (CHR ''['')) = Inr st'
     \<and> int (length (result st'))
        = int (length (result st)) + int n * int n + 3 * int n + 2 * indent st * int n
     \<and> indent st' = indent st + int n \<and> \<not> inString st'"
proof (induction n arbitrary: st)
  case 0
  then show ?case by simp
next
  case (Suc n)
  have tg: "\<not> toggle st (CHR ''['')" using Suc.prems(1) by (simp add: toggle_def)
  have op: "is_open (CHR ''['')" by (simp add: is_open_def)
  let ?st1 = "\<lparr>result = result st @ [CHR ''[''] @ [nl] @ replicate (nat ((indent st + 1) * 2)) sp,
                indent = indent st + 1, inString = False, prevChar = CHR ''[''\<rparr>"
  have s1: "pp_step st (CHR ''['') = Inr ?st1"
    by (rule pp_step_open [OF tg op Suc.prems(2)])
  have "\<not> inString ?st1" and i1: "0 \<le> indent ?st1" using Suc.prems(2) by simp_all
  from Suc.IH [OF this] obtain st' where
    l: "pp_loop ?st1 (replicate n (CHR ''['')) = Inr st'"
    and len: "int (length (result st'))
        = int (length (result ?st1)) + int n * int n + 3 * int n + 2 * indent ?st1 * int n"
    and ind: "indent st' = indent ?st1 + int n" and ns: "\<not> inString st'"
    by blast
  have r1: "int (length (result ?st1)) = int (length (result st)) + 2 + 2 * (indent st + 1)"
    using Suc.prems(2) by simp
  have "pp_loop st (replicate (Suc n) (CHR ''['')) = Inr st'"
    using s1 l by simp
  moreover have "int (length (result st'))
        = int (length (result st)) + int (Suc n) * int (Suc n) + 3 * int (Suc n)
          + 2 * indent st * int (Suc n)"
    using len r1 by (simp add: algebra_simps)
  moreover have "indent st' = indent st + int (Suc n)" using ind by simp
  ultimately show ?case using ns by blast
qed

lemma prettyPrint_replicate_open:
  "\<exists>out. prettyPrint (replicate n (CHR ''['')) = Inr out \<and> length out = n * n + 3 * n"
proof -
  have "\<not> inString pp_init" "0 \<le> indent pp_init" by (simp_all add: pp_init_def)
  from pp_loop_replicate_open [OF this, of n] obtain st' where
    l: "pp_loop pp_init (replicate n (CHR ''['')) = Inr st'"
    and len: "int (length (result st')) = int n * int n + 3 * int n"
    by (auto simp: pp_init_def)
  from len have "int (length (result st')) = int (n * n + 3 * n)" by simp
  then have "length (result st') = n * n + 3 * n" by (simp only: of_nat_eq_iff)
  with l show ?thesis by (simp add: prettyPrint_def)
qed

subsection \<open>Exceptions\<close>




subsection \<open>Size of the output\<close>

text \<open>
  Claim C5, as the code has it. When \<open>prettyPrint\<close> returns, its output has at most
  \<open>n * n + 3 * n\<close> characters, for an input of \<open>n\<close> characters: the bound is quadratic.
\<close>

theorem prettyPrint_quadratic_bound:
  "prettyPrint s = Inr out \<Longrightarrow> length out \<le> length s * length s + 3 * length s"
proof -
  assume "prettyPrint s = Inr out"
  then obtain st' where l: "pp_loop pp_init s = Inr st'" and r: "out = result st'"
    by (auto simp: prettyPrint_def split: sum.splits)
  have "0 \<le> indent pp_init" by (simp add: pp_init_def)
  from pp_loop_bounds [OF this l]
  have "int (length out) \<le> int (length s) * int (length s) + 3 * int (length s)"
    by (simp add: r pp_init_def)
  then have "int (length out) \<le> int (length s * length s + 3 * length s)" by simp
  then show ?thesis by (simp only: of_nat_le_iff)
qed

theorem prettyPrint_quadratic_bound_witness:
  "prettyPrint ''[['' = Inr (''['' @ [nl] @ ''  ['' @ [nl] @ ''    '')
   \<and> length (''['' @ [nl] @ ''  ['' @ [nl] @ ''    '') \<le> length ''[['' * length ''[['' + 3 * length ''[[''"
proof -
  have p: "prettyPrint ''[['' = Inr (''['' @ [nl] @ ''  ['' @ [nl] @ ''    '')"
    by code_simp
  from p prettyPrint_quadratic_bound [OF p] show ?thesis by simp
qed

text \<open>
  Claim C5, as stated, fails: no linear function of the length of the input bounds the
  length of the output. On \<open>n\<close> opening brackets the output has \<open>n * n + 3 * n\<close> characters.
\<close>

theorem prettyPrint_no_linear_bound:
  "\<not> (\<exists>a b. \<forall>s out. prettyPrint s = Inr out \<longrightarrow> length out \<le> a * length s + b)"
proof
  assume "\<exists>a b. \<forall>s out. prettyPrint s = Inr out \<longrightarrow> length out \<le> a * length s + b"
  then obtain a b where ab: "\<And>s out. prettyPrint s = Inr out \<Longrightarrow> length out \<le> a * length s + b"
    by blast
  define n where "n = a + b + 1"
  obtain out where o: "prettyPrint (replicate n (CHR ''['')) = Inr out" and len: "length out = n * n + 3 * n"
    using prettyPrint_replicate_open by blast
  from ab [OF o] len have "n * n + 3 * n \<le> a * n + b" by simp
  moreover have "a * n + b < n * n + 3 * n"
  proof -
    have "a \<le> n" by (simp add: n_def)
    then have "a * n \<le> n * n" by (rule mult_le_mono1)
    moreover have "b < 3 * n" by (simp add: n_def)
    ultimately show ?thesis by linarith
  qed
  ultimately show False by simp
qed

subsection \<open>Strings that end in an escaped backslash\<close>

text \<open>
  Claim C1, on the document \<^verbatim>\<open>["\\","a b"]\<close>, which has no whitespace outside its
  string literals. The quote that closes the first string follows a backslash, so the
  scanner stays in string mode, takes the opening quote of the second string for a
  closing one, and drops the space of \<^verbatim>\<open>"a b"\<close>: the output is \<^verbatim>\<open>["\\","ab"]\<close>
  after the first line break. With the whitespace outside string literals removed, the
  output is not the input: a string value has changed.
\<close>

theorem prettyPrint_drops_space_inside_string:
  "prettyPrint doc_two_strings
     = Inr (''['' @ [nl] @ ''  '' @ [dq, bs, bs, dq] @ '','' @ [dq] @ ''ab'' @ [dq] @ '']'')
   \<and> collapse_ws doc_two_strings = doc_two_strings
   \<and> collapse_ws (''['' @ [nl] @ ''  '' @ [dq, bs, bs, dq] @ '','' @ [dq] @ ''ab'' @ [dq] @ '']'')
     = ''['' @ [dq, bs, bs, dq] @ '','' @ [dq] @ ''ab'' @ [dq] @ '']''
   \<and> ''['' @ [dq, bs, bs, dq] @ '','' @ [dq] @ ''ab'' @ [dq] @ '']'' \<noteq> doc_two_strings"
  by code_simp

subsection \<open>The counter at the end of the scan\<close>

text \<open>
  When the brackets and braces that the scanner itself sees outside strings are
  balanced, the scan finishes and \<open>indent\<close> is back at zero.
\<close>

lemma pp_loop_balanced:
  "0 \<le> indent st \<Longrightarrow>
   balanced_from (nat (indent st)) (outside_chars (inString st) (prevChar st) s) \<Longrightarrow>
   \<exists>st'. pp_loop st s = Inr st' \<and> indent st' = 0"
proof (induction s arbitrary: st)
  case Nil
  then show ?case by simp
next
  case (Cons c cs)
  have tg: "(if c = dq \<and> prevChar st \<noteq> bs then \<not> inString st else inString st) = toggle st c"
    by (simp add: toggle_def)
  show ?case
  proof (cases "toggle st c")
    case True
    let ?st' = "\<lparr>result = result st @ [c], indent = indent st, inString = True, prevChar = c\<rparr>"
    have "0 \<le> indent ?st'" using Cons.prems(1) by simp
    moreover have "balanced_from (nat (indent ?st')) (outside_chars (inString ?st') (prevChar ?st') cs)"
      using Cons.prems(2) True by (simp add: tg)
    ultimately show ?thesis
      using Cons.IH [of ?st'] by (simp add: pp_step_inside [OF True])
  next
    case False
    consider (op) "is_open c" | (cl) "is_close c" "\<not> is_open c" | (ot) "\<not> is_open c" "\<not> is_close c"
      by blast
    then show ?thesis
    proof cases
      case op
      let ?st' = "\<lparr>result = result st @ [c] @ [nl] @ replicate (nat ((indent st + 1) * 2)) sp,
                        indent = indent st + 1, inString = False, prevChar = c\<rparr>"
      have "0 \<le> indent ?st'" using Cons.prems(1) by simp
      moreover have "nat (indent st + 1) = nat (indent st) + 1" using Cons.prems(1) by simp
      then have "balanced_from (nat (indent ?st')) (outside_chars (inString ?st') (prevChar ?st') cs)"
        using Cons.prems(2) False op by (simp add: tg)
      ultimately show ?thesis
        using Cons.IH [of ?st'] by (simp add: pp_step_open [OF False op Cons.prems(1)])
    next
      case cl
      from Cons.prems(2) False cl have pos: "0 < indent st"
        and rest: "balanced_from (nat (indent st) - 1) (outside_chars False c cs)"
        by (simp_all add: tg)
      let ?st' = "\<lparr>result = result st @ [nl] @ replicate (nat ((indent st - 1) * 2)) sp @ [c],
                        indent = indent st - 1, inString = False, prevChar = c\<rparr>"
      have "0 \<le> indent ?st'" using pos by simp
      moreover have "nat (indent st - 1) = nat (indent st) - 1" by simp
      then have "balanced_from (nat (indent ?st')) (outside_chars (inString ?st') (prevChar ?st') cs)"
        using rest by simp
      ultimately show ?thesis
        using Cons.IH [of ?st'] by (simp add: pp_step_close [OF False cl(1) pos])
    next
      case ot
      from pp_step_other [OF False ot Cons.prems(1)]
      obtain r where r: "pp_step st c = Inr \<lparr>result = r, indent = indent st, inString = False, prevChar = c\<rparr>"
        by blast
      let ?st' = "\<lparr>result = r, indent = indent st, inString = False, prevChar = c\<rparr>"
      have "0 \<le> indent ?st'" using Cons.prems(1) by simp
      moreover have "balanced_from (nat (indent ?st')) (outside_chars (inString ?st') (prevChar ?st') cs)"
        using Cons.prems(2) False ot by (simp add: tg)
      ultimately show ?thesis
        using Cons.IH [of ?st'] by (simp add: r)
    qed
  qed
qed

lemma indent_after_scanner_balanced:
  "balanced_from 0 (outside_chars False (CHR 0x00) s) \<Longrightarrow> indent_after s = Inr 0"
proof -
  assume b: "balanced_from 0 (outside_chars False (CHR 0x00) s)"
  have "0 \<le> indent pp_init" by (simp add: pp_init_def)
  moreover have "balanced_from (nat (indent pp_init))
      (outside_chars (inString pp_init) (prevChar pp_init) s)"
    using b by (simp add: pp_init_def)
  ultimately obtain st' where "pp_loop pp_init s = Inr st'" "indent st' = 0"
    using pp_loop_balanced by blast
  then show ?thesis by (simp add: indent_after_def)
qed

text \<open>
  Claim C6, on the document \<^verbatim>\<open>{"a":"\\"}\<close>. Its braces are balanced, both as raw
  text and outside its string literals, and the scan ends with \<open>indent\<close> at 1: the quote
  that closes the string follows a backslash, so the closing brace is copied as if it
  were part of the string.
\<close>

theorem indent_not_zero_on_balanced_document:
  "balanced_from 0 doc_object \<and> balanced_from 0 (json_structure doc_object)
   \<and> indent_after doc_object = Inr 1"
  by code_simp

text \<open>
  Claim C8, on the document \<^verbatim>\<open>["\\","\\ "]\<close>. Its formatted text, with the whitespace
  outside string literals removed and formatted again, gets a line break before the
  closing bracket that the first formatted text does not have.
\<close>

theorem prettyPrint_not_stable_after_collapse:
  "prettyPrint doc_backslash_space
     = Inr (''['' @ [nl] @ ''  '' @ [dq, bs, bs, dq] @ '','' @ [dq, bs, bs, dq] @ '']'')
   \<and> collapse_ws (''['' @ [nl] @ ''  '' @ [dq, bs, bs, dq] @ '','' @ [dq, bs, bs, dq] @ '']'')
     = ''['' @ [dq, bs, bs, dq] @ '','' @ [dq, bs, bs, dq] @ '']''
   \<and> prettyPrint (''['' @ [dq, bs, bs, dq] @ '','' @ [dq, bs, bs, dq] @ '']'')
     = Inr (''['' @ [nl] @ ''  '' @ [dq, bs, bs, dq] @ '','' @ [dq, bs, bs, dq] @ [nl] @ '']'')"
  by code_simp

section \<open>Properties of the marker count\<close>

lemma find_from_None:
  "find_from text marker pos = None \<Longrightarrow> pos \<le> q \<Longrightarrow> \<not> occurs_at text marker q"
proof (induction "text" marker pos rule: find_from.induct)
  case (1 t marker pos)
  show ?case
  proof (cases "length t < pos + length marker")
    case True
    with "1.prems"(2) show ?thesis by (simp add: occurs_at_def)
  next
    case False
    from "1.prems"(1) False have ne: "take (length marker) (drop pos t) \<noteq> marker"
      by (subst (asm) find_from.simps) (auto split: if_splits)
    with "1.prems"(1) False have rec: "find_from t marker (pos + 1) = None"
      by (subst (asm) find_from.simps) simp
    show ?thesis
    proof (cases "q = pos")
      case True
      with ne show ?thesis by (simp add: occurs_at_def)
    next
      case neq: False
      with "1.prems"(2) have "pos + 1 \<le> q" by simp
      from "1.IH" [OF False ne rec this] show ?thesis .
    qed
  qed
qed

lemma find_from_Some:
  "find_from text marker pos = Some p \<Longrightarrow>
   occurs_at text marker p \<and> (\<forall>q. pos \<le> q \<and> q < p \<longrightarrow> \<not> occurs_at text marker q)"
proof (induction "text" marker pos rule: find_from.induct)
  case (1 t marker pos)
  have fits: "\<not> length t < pos + length marker"
    using "1.prems" by (subst (asm) find_from.simps) (simp split: if_splits)
  show ?case
  proof (cases "take (length marker) (drop pos t) = marker")
    case True
    with "1.prems" fits have "p = pos"
      by (subst (asm) find_from.simps) simp
    with True fits show ?thesis by (auto simp: occurs_at_def)
  next
    case False
    with "1.prems" fits have rec: "find_from t marker (pos + 1) = Some p"
      by (subst (asm) find_from.simps) simp
    from "1.IH" [OF fits False rec]
    have ih: "occurs_at t marker p" "\<And>q. pos + 1 \<le> q \<Longrightarrow> q < p \<Longrightarrow> \<not> occurs_at t marker q"
      by auto
    have here: "\<not> occurs_at t marker pos" using False by (simp add: occurs_at_def)
    show ?thesis
    proof (intro conjI allI impI)
      show "occurs_at t marker p" by (rule ih(1))
    next
      fix q
      assume q: "pos \<le> q \<and> q < p"
      show "\<not> occurs_at t marker q"
      proof (cases "q = pos")
        case True
        with here show ?thesis by simp
      next
        case neq: False
        with q have "pos + 1 \<le> q" by simp
        with ih(2) q show ?thesis by simp
      qed
    qed
  qed
qed

lemma count_loop_filter:
  "count_loop text marker pos count
     = count + int (length (filter (occurs_at text marker) [pos..<Suc (length text)]))"
proof (induction "text" marker pos count rule: count_loop.induct)
  case (1 t marker pos count)
  show ?case
  proof (cases "find_from t marker pos")
    case None
    have "filter (occurs_at t marker) [pos..<Suc (length t)] = []"
      using find_from_None [OF None] by (auto simp: filter_empty_conv)
    with None show ?thesis by (subst count_loop.simps) simp
  next
    case (Some p)
    from find_from_Some_bounds [OF Some] have b: "pos \<le> p" "p \<le> length t" by simp_all
    from find_from_Some [OF Some]
    have at: "occurs_at t marker p" and before: "\<And>q. pos \<le> q \<Longrightarrow> q < p \<Longrightarrow> \<not> occurs_at t marker q"
      by auto
    have "[pos..<Suc (length t)] = [pos..<p] @ [p..<Suc (length t)]"
      using upt_add_eq_append [of pos p "Suc (length t) - p"] b by simp
    moreover have "[p..<Suc (length t)] = p # [p + 1..<Suc (length t)]"
      using b by (simp add: upt_conv_Cons)
    ultimately have split: "[pos..<Suc (length t)] = [pos..<p] @ p # [p + 1..<Suc (length t)]"
      by simp
    have "filter (occurs_at t marker) [pos..<p] = []"
      using before by (auto simp: filter_empty_conv)
    with at split
    have "length (filter (occurs_at t marker) [pos..<Suc (length t)])
        = Suc (length (filter (occurs_at t marker) [p + 1..<Suc (length t)]))"
      by simp
    moreover have "count_loop t marker pos count = count_loop t marker (p + 1) (count + 1)"
      using Some by (subst count_loop.simps) simp
    ultimately show ?thesis using "1.IH" [OF Some] by simp
  qed
qed

lemma occurs_positions:
  "{p. occurs_at text marker p} = set (filter (occurs_at text marker) [0..<Suc (length text)])"
  by (auto simp: occurs_at_def simp del: upt_Suc)

lemma countOccurrences_le: "countOccurrences text marker \<le> int (length text) + 1"
proof -
  have "length (filter (occurs_at text marker) [0..<Suc (length text)])
      \<le> length [0..<Suc (length text)]"
    by (rule length_filter_le)
  then show ?thesis by (simp add: countOccurrences_def count_loop_filter)
qed

text \<open>Scenario 4 of the specification: two items, two markers.\<close>

lemma outputSuccess_count_two_items:
  "outputSuccess_count (''{'' @ id_marker @ ''1},{'' @ id_marker @ ''2}'') = 2"
  by code_simp

text \<open>
  Claim C4. For every text and marker, \<open>countOccurrences text marker\<close> is the number of
  positions of the text at which the marker stands; occurrences that overlap are all
  counted, since the search resumes one character after the start of a match. So the
  result is 0 when the marker does not occur, and \<open>k\<close> when it occurs at \<open>k\<close> positions.
\<close>

theorem countOccurrences_counts_positions:
  "countOccurrences text marker = int (card {p. occurs_at text marker p})"
proof -
  have "card {p. occurs_at text marker p}
      = length (filter (occurs_at text marker) [0..<Suc (length text)])"
    unfolding occurs_positions by (rule distinct_card) simp
  then show ?thesis by (simp add: countOccurrences_def count_loop_filter)
qed


end
